theory Spec2Isabelle
  imports Main
begin

section \<open>Python values used by scrape.py\<close>

text \<open>
  Python strings are modelled as HOL strings: a character is a code point below 256. On
  these, \<^verbatim>\<open>str.isspace\<close>, \<^verbatim>\<open>str.strip()\<close>, \<^verbatim>\<open>str.split()\<close> and the regular
  expression class \<^verbatim>\<open>\s\<close> agree on the twelve characters below: tab, line feed,
  vertical tab, form feed, carriage return, the four separators 0x1C to 0x1F, the space,
  the next-line character 0x85 and the no-break space 0xA0 (what \<^verbatim>\<open>&nbsp;\<close> parses to).
\<close>

datatype py_error = TypeError | AttributeError | IndexError | ValueError

definition isspace :: "char \<Rightarrow> bool" where
  "isspace c = (c \<in> set [CHR 0x09, CHR 0x0A, CHR 0x0B, CHR 0x0C, CHR 0x0D,
                          CHR 0x1C, CHR 0x1D, CHR 0x1E, CHR 0x1F, CHR 0x20,
                          CHR 0x85, CHR 0xA0])"

text \<open>\<^verbatim>\<open>s.strip()\<close> and \<^verbatim>\<open>s.strip(chars)\<close>: drop the characters of the class at both ends.\<close>

definition strip_with :: "(char \<Rightarrow> bool) \<Rightarrow> string \<Rightarrow> string" where
  "strip_with P s = rev (dropWhile P (rev (dropWhile P s)))"

definition strip :: "string \<Rightarrow> string" where
  "strip s = strip_with isspace s"

definition strip_chars :: "string \<Rightarrow> string \<Rightarrow> string" where
  "strip_chars cs s = strip_with (\<lambda>c. c \<in> set cs) s"

text \<open>\<^verbatim>\<open>s.replace(old, new)\<close> where \<open>old\<close> and \<open>new\<close> are one-character strings,
  as at both call sites of the source.\<close>

definition replace :: "char \<Rightarrow> char \<Rightarrow> string \<Rightarrow> string" where
  "replace old new s = map (\<lambda>c. if c = old then new else c) s"

text \<open>\<^verbatim>\<open>s.split(sep)\<close> for a one-character separator: the pieces between the
  separators, empty pieces kept; the result is never the empty list.\<close>

fun split_on :: "char \<Rightarrow> string \<Rightarrow> string list" where
  "split_on d [] = [[]]"
| "split_on d (c # cs) =
     (if c = d then [] # split_on d cs
      else (case split_on d cs of
              [] \<Rightarrow> [[c]]
            | w # ws \<Rightarrow> (c # w) # ws))"

text \<open>\<^verbatim>\<open>s.split()\<close>: the maximal runs of non-whitespace characters. \<open>cur\<close> is the
  token being read.\<close>

fun split_acc :: "string \<Rightarrow> string \<Rightarrow> string list" where
  "split_acc cur [] = (if cur = [] then [] else [cur])"
| "split_acc cur (c # cs) =
     (if isspace c then (if cur = [] then split_acc [] cs else cur # split_acc [] cs)
      else split_acc (cur @ [c]) cs)"

definition split_ws :: "string \<Rightarrow> string list" where
  "split_ws s = split_acc [] s"

text \<open>\<^verbatim>\<open>xs[i]\<close>: a negative index counts from the end, an index out of range raises.\<close>

definition item_at :: "'a list \<Rightarrow> int \<Rightarrow> py_error + 'a" where
  "item_at xs i =
     (let j = (if i < 0 then i + int (length xs) else i)
      in if j < 0 \<or> int (length xs) \<le> j then Inl IndexError else Inr (xs ! nat j))"

section \<open>The parsed document (BeautifulSoup)\<close>

text \<open>
  A parsed document is the list of the soup's children. A node is a tag, with its name,
  its attributes and its children, or a text node (a NavigableString). Comments and
  other special strings are not modelled.
\<close>

datatype node = Tag string "(string \<times> string) list" "node list" | Text string

text \<open>Document order (\<^verbatim>\<open>.descendants\<close>, \<^verbatim>\<open>.next_elements\<close>): a tag comes before its
  children, which come before what follows the tag.\<close>

primrec elements :: "node \<Rightarrow> node list" and elements_list :: "node list \<Rightarrow> node list" where
  "elements (Tag n a cs) = Tag n a cs # elements_list cs"
| "elements (Text s) = [Text s]"
| "elements_list [] = []"
| "elements_list (x # xs) = elements x @ elements_list xs"

text \<open>\<^verbatim>\<open>get_text()\<close>: the text nodes below the node, concatenated in document order; a
  text node gives its own string.\<close>

primrec get_text :: "node \<Rightarrow> string" and get_text_list :: "node list \<Rightarrow> string" where
  "get_text (Tag n a cs) = get_text_list cs"
| "get_text (Text s) = s"
| "get_text_list [] = []"
| "get_text_list (x # xs) = get_text x @ get_text_list xs"

text \<open>\<^verbatim>\<open>.string\<close>: a text node is its own string; a tag with exactly one child has the
  string of that child; any other tag has none.\<close>

primrec node_string :: "node \<Rightarrow> string option" and node_string_list :: "node list \<Rightarrow> string option" where
  "node_string (Tag n a cs) = node_string_list cs"
| "node_string (Text s) = Some s"
| "node_string_list [] = None"
| "node_string_list (x # xs) = (if xs = [] then node_string x else None)"

fun is_tag :: "node \<Rightarrow> bool" where
  "is_tag (Tag n a cs) = True"
| "is_tag (Text s) = False"

fun named :: "string \<Rightarrow> node \<Rightarrow> bool" where
  "named nm (Tag n a cs) = (n = nm)"
| "named nm (Text s) = False"

text \<open>\<^verbatim>\<open>soup(...)\<close>, that is \<^verbatim>\<open>find_all\<close>: every node of the document that the filter
  accepts, in document order.\<close>

definition find_all :: "(node \<Rightarrow> bool) \<Rightarrow> node list \<Rightarrow> node list" where
  "find_all P soup = filter P (elements_list soup)"

text \<open>\<^verbatim>\<open>find\<close> and \<^verbatim>\<open>find_next\<close> return the first node, in a sequence of nodes in
  document order, that the filter accepts. The node is returned with the nodes after
  it, which are its \<^verbatim>\<open>.next_elements\<close>; \<open>None\<close> is Python's \<^verbatim>\<open>None\<close>.\<close>

fun find_first :: "(node \<Rightarrow> bool) \<Rightarrow> node list \<Rightarrow> (node \<times> node list) option" where
  "find_first P [] = None"
| "find_first P (x # xs) = (if P x then Some (x, xs) else find_first P xs)"

section \<open>The name extractor\<close>

text \<open>What \<^verbatim>\<open>extract_name\<close> returns: nothing (\<^verbatim>\<open>None\<close>, when the function falls off
  its end), the empty string, or a pair.\<close>

datatype name_result = PyNone | EmptyString | NamePair string string

fun truthy :: "name_result \<Rightarrow> bool" where
  "truthy PyNone = False"
| "truthy EmptyString = False"
| "truthy (NamePair l f) = True"

definition extract_name :: "node list \<Rightarrow> py_error + name_result" where
  "extract_name soup =
     (case find_all (named ''h1'') soup of
        [] \<Rightarrow> Inr EmptyString
      | h # hs \<Rightarrow>
          (let name = strip (get_text h) in
           if CHR '','' \<in> set name then
             (case item_at (split_on CHR '','' name) 0 of
                Inl e \<Rightarrow> Inl e
              | Inr l \<Rightarrow>
                  (case item_at (split_on CHR '','' name) 1 of
                     Inl e \<Rightarrow> Inl e
                   | Inr f \<Rightarrow> Inr (NamePair l f)))
           else if length (split_ws name) > 1 then
             (case item_at (split_ws name) (- 1) of
                Inl e \<Rightarrow> Inl e
              | Inr l \<Rightarrow>
                  (case item_at (split_ws name) 0 of
                     Inl e \<Rightarrow> Inl e
                   | Inr f \<Rightarrow> Inr (NamePair l f)))
           else Inr PyNone))"

section \<open>Regular expressions (re)\<close>

text \<open>
  The patterns of the source are sequences of one-character atoms, each with a greedy
  quantifier, and the anchors \<^verbatim>\<open>^\<close> and \<^verbatim>\<open>$\<close>; one pattern is an alternation of
  such sequences. \<open>NonSpace\<close> is \<^verbatim>\<open>\S\<close>, \<open>Digit\<close> is \<^verbatim>\<open>\d\<close> (the code points
  below 256 hold no decimal digit but the ten ASCII ones), \<open>Range a b\<close> is the bracket
  range \<^verbatim>\<open>[a-b]\<close>.
\<close>

datatype cclass = NonSpace | Digit | Lit char | Range char char

datatype quant = One | Opt | Plus | Times nat

datatype item = Atom cclass quant | Bol | Eol

datatype regex = Regex bool "item list list"

definition lower :: "char \<Rightarrow> char" where
  "lower c = (if (65::nat) \<le> of_char c \<and> of_char c \<le> (90::nat)
              then char_of (of_char c + (32::nat)) else c)"

text \<open>\<open>ic\<close> is the flag \<^verbatim>\<open>re.IGNORECASE\<close>; the patterns compiled with it hold
  ASCII literals only, which below code point 256 match no character but their two
  ASCII cases.\<close>

fun cmatch :: "bool \<Rightarrow> cclass \<Rightarrow> char \<Rightarrow> bool" where
  "cmatch ic NonSpace c = (\<not> isspace c)"
| "cmatch ic Digit c = ((48::nat) \<le> of_char c \<and> of_char c \<le> (57::nat))"
| "cmatch ic (Lit l) c = (if ic then lower c = lower l else c = l)"
| "cmatch ic (Range a b) c = ((of_char a :: nat) \<le> of_char c \<and> (of_char c :: nat) \<le> of_char b)"

fun qmin :: "quant \<Rightarrow> nat" where
  "qmin One = 1"
| "qmin Opt = 0"
| "qmin Plus = 1"
| "qmin (Times n) = n"

text \<open>The most repetitions a quantifier can take when \<open>avail\<close> characters of the
  class stand at the position.\<close>

fun qmax :: "quant \<Rightarrow> nat \<Rightarrow> nat" where
  "qmax One avail = min 1 avail"
| "qmax Opt avail = min 1 avail"
| "qmax Plus avail = avail"
| "qmax (Times n) avail = min n avail"

fun first_some :: "('a \<Rightarrow> 'b option) \<Rightarrow> 'a list \<Rightarrow> 'b option" where
  "first_some f [] = None"
| "first_some f (x # xs) = (case f x of Some y \<Rightarrow> Some y | None \<Rightarrow> first_some f xs)"

text \<open>
  The backtracking matcher. \<open>match_here ic p pos s\<close> matches the sequence \<open>p\<close> at the
  head of \<open>s\<close>, which starts at index \<open>pos\<close> of the subject string, and returns the
  length of the match. A quantified atom first takes as many characters as it can and
  gives them back one at a time while the rest of the pattern fails. \<^verbatim>\<open>^\<close> matches at
  index 0 only, and \<^verbatim>\<open>$\<close> at the end of the subject or before a line feed that ends it
  (no \<^verbatim>\<open>re.MULTILINE\<close>).
\<close>

fun match_here :: "bool \<Rightarrow> item list \<Rightarrow> nat \<Rightarrow> string \<Rightarrow> nat option" where
  "match_here ic [] pos s = Some 0"
| "match_here ic (Bol # r) pos s = (if pos = 0 then match_here ic r pos s else None)"
| "match_here ic (Eol # r) pos s =
     (if s = [] \<or> s = [CHR 0x0A] then match_here ic r pos s else None)"
| "match_here ic (Atom c q # r) pos s =
     (let avail = length (takeWhile (cmatch ic c) s) in
      first_some (\<lambda>k. map_option (\<lambda>n. k + n) (match_here ic r (pos + k) (drop k s)))
                 (rev [qmin q ..< Suc (qmax q avail)]))"

fun match_alts :: "regex \<Rightarrow> nat \<Rightarrow> string \<Rightarrow> nat option" where
  "match_alts (Regex ic alts) pos s = first_some (\<lambda>p. match_here ic p pos s) alts"

text \<open>\<^verbatim>\<open>re.search\<close>: the match at the leftmost index where there is one, as the pair of
  its start and its length; \<open>re_group\<close> is \<^verbatim>\<open>group(0)\<close> of that match.\<close>

definition re_search :: "regex \<Rightarrow> string \<Rightarrow> (nat \<times> nat) option" where
  "re_search re s =
     first_some (\<lambda>i. map_option (\<lambda>n. (i, n)) (match_alts re i (drop i s)))
                [0 ..< Suc (length s)]"

definition re_group :: "regex \<Rightarrow> string \<Rightarrow> string option" where
  "re_group re s = map_option (\<lambda>(i, n). take n (drop i s)) (re_search re s)"

definition lits :: "string \<Rightarrow> item list" where
  "lits w = map (\<lambda>c. Atom (Lit c) One) w"

text \<open>\<^verbatim>\<open>r'\S+@\S+\.\S+'\<close>\<close>

definition email_pattern :: regex where
  "email_pattern = Regex False
     [[Atom NonSpace Plus, Atom (Lit CHR ''@'') One, Atom NonSpace Plus,
       Atom (Lit CHR ''.'') One, Atom NonSpace Plus]]"

text \<open>\<^verbatim>\<open>re.compile(r'(^phone$|^telephone$|^telephone:$)', re.IGNORECASE)\<close>\<close>

definition phone_label :: regex where
  "phone_label = Regex True
     [Bol # lits ''phone'' @ [Eol],
      Bol # lits ''telephone'' @ [Eol],
      Bol # lits ''telephone:'' @ [Eol]]"

text \<open>\<^verbatim>\<open>r'\(?\d{3}\)?[ -.]?\/?\d{3}[ ]?[ -.]?[ ]?\d{4}'\<close>; the bracket \<^verbatim>\<open>[ -.]\<close> is the
  range from the space to the full stop.\<close>

definition phone_pattern :: regex where
  "phone_pattern = Regex False
     [[Atom (Lit CHR ''('') Opt, Atom Digit (Times 3), Atom (Lit CHR '')'') Opt,
       Atom (Range CHR '' '' CHR ''.'') Opt, Atom (Lit CHR ''/'') Opt,
       Atom Digit (Times 3), Atom (Lit CHR '' '') Opt,
       Atom (Range CHR '' '' CHR ''.'') Opt, Atom (Lit CHR '' '') Opt,
       Atom Digit (Times 4)]]"

text \<open>\<^verbatim>\<open>re.compile(r'/people/', re.IGNORECASE)\<close>\<close>

definition people_pattern :: regex where
  "people_pattern = Regex True [lits ''/people/'']"

section \<open>The email, phone and education extractors\<close>

text \<open>\<^verbatim>\<open>find(string=regex)\<close>: the first text node, in a sequence of nodes in document
  order, that the pattern finds a match in; tags are passed over. The string is
  returned with the nodes after it.\<close>

fun find_string :: "regex \<Rightarrow> node list \<Rightarrow> (string \<times> node list) option" where
  "find_string re [] = None"
| "find_string re (Tag n a cs # xs) = find_string re xs"
| "find_string re (Text s # xs) =
     (if re_search re s \<noteq> None then Some (s, xs) else find_string re xs)"

definition extract_email :: "node list \<Rightarrow> string" where
  "extract_email soup =
     (case find_string email_pattern (elements_list soup) of
        None \<Rightarrow> []
      | Some (email, following) \<Rightarrow>
          if email = [] then []
          else (case re_group email_pattern email of
                  Some m \<Rightarrow> strip_chars '','' m
                | None \<Rightarrow> []))"

text \<open>\<^verbatim>\<open>find_next()\<close> without arguments is the next tag in document order (text nodes
  are passed over, as in Beautiful Soup 4 up to 4.12); when there is none it is
  \<^verbatim>\<open>None\<close>, and the call of \<^verbatim>\<open>get_text\<close> on it, or the read of its \<^verbatim>\<open>name\<close>,
  raises AttributeError.\<close>

definition extract_phone :: "node list \<Rightarrow> py_error + string" where
  "extract_phone soup =
     (case find_string phone_label (elements_list soup) of
        None \<Rightarrow> Inr []
      | Some (phone, following) \<Rightarrow>
          if phone = [] then Inr []
          else (case find_first is_tag following of
                  None \<Rightarrow> Inl AttributeError
                | Some (nxt, following') \<Rightarrow>
                    (case re_group phone_pattern (phone @ get_text nxt) of
                       Some m \<Rightarrow> Inr m
                     | None \<Rightarrow> Inr [])))"

text \<open>\<^verbatim>\<open>find('h2', string='Education')\<close>: a tag named h2 whose \<^verbatim>\<open>.string\<close> is
  exactly the word.\<close>

definition education_heading :: "node \<Rightarrow> bool" where
  "education_heading x = (named ''h2'' x \<and> node_string x = Some ''Education'')"

definition extract_education :: "node list \<Rightarrow> py_error + string" where
  "extract_education soup =
     (case find_first education_heading (elements_list soup) of
        None \<Rightarrow> Inr []
      | Some (education, following) \<Rightarrow>
          (case find_first is_tag following of
             None \<Rightarrow> Inl AttributeError
           | Some (next_element, following') \<Rightarrow>
               if named ''ul'' next_element then
                 (case find_first is_tag following' of
                    None \<Rightarrow> Inl AttributeError
                  | Some (e, following'') \<Rightarrow>
                      Inr (strip (replace (CHR 0x0A) CHR '' '' (replace CHR '','' CHR ''-'' (get_text e)))))
               else
                 Inr (strip (replace (CHR 0x0A) CHR '' '' (replace CHR '','' CHR ''-'' (get_text next_element))))))"

section \<open>The environment and the effects\<close>

text \<open>
  The web, the robots policy and the two functions of \<^verbatim>\<open>urllib.parse\<close> are
  parameters. A fetch fails with a URLError, fails with another exception, or gives a
  page, already parsed; an address gives the same answer each time it is fetched.
  \<open>urlparse\<close> gives the scheme and the host name of an address. Reading the robots
  policy fails with a URLError or gives the policy, which says for each address whether
  the user agent may fetch it. A failure to open or to write the output file is not
  modelled.
\<close>

datatype fetch_result = URLError string | OtherError string | Page "node list"

datatype robots_result = RobotsURLError string | Policy "string \<Rightarrow> bool"

record env =
  web :: "string \<Rightarrow> fetch_result"
  robots :: "string \<Rightarrow> robots_result"
  urljoin :: "string \<Rightarrow> string \<Rightarrow> string"
  urlparse :: "string \<Rightarrow> string \<times> string"

text \<open>What a run does to the world, in order: a request to an address, a line printed
  to standard output, the opening of a file for writing (which creates or empties it),
  and a string written to the open file.\<close>

datatype event = Fetch string | Print string | OpenFile string | WriteFile string

definition read_url :: "env \<Rightarrow> string \<Rightarrow> event list \<times> node list option" where
  "read_url e url =
     (case web e url of
        URLError msg \<Rightarrow>
          ([Fetch url, Print (''Error opening url: '' @ url @ [CHR 0x0A] @ msg)], None)
      | OtherError msg \<Rightarrow>
          ([Fetch url, Print (''Other error with url: '' @ url @ [CHR 0x0A] @ msg)], None)
      | Page soup \<Rightarrow> ([Fetch url], Some soup))"

fun attr :: "string \<Rightarrow> node \<Rightarrow> string option" where
  "attr k (Tag n a cs) = map_of a k"
| "attr k (Text s) = None"

text \<open>\<^verbatim>\<open>soup('a', href=regex)\<close>: the tags named a whose href the pattern finds a
  match in.\<close>

definition people_anchor :: "node \<Rightarrow> bool" where
  "people_anchor x =
     (named ''a'' x \<and>
      (case attr ''href'' x of None \<Rightarrow> False | Some v \<Rightarrow> re_search people_pattern v \<noteq> None))"

definition get_people_links :: "env \<Rightarrow> string \<Rightarrow> event list \<times> string list option" where
  "get_people_links e url =
     (case read_url e url of
        (ev, None) \<Rightarrow> (ev, None)
      | (ev, Some soup) \<Rightarrow>
          (ev, Some (map (\<lambda>anchor. urljoin e ''https://sjsu.edu/''
                                    (case attr ''href'' anchor of None \<Rightarrow> [] | Some v \<Rightarrow> v))
                         (find_all people_anchor soup))))"

definition bind :: "py_error + 'a \<Rightarrow> ('a \<Rightarrow> py_error + 'b) \<Rightarrow> py_error + 'b" where
  "bind m f = (case m of Inl err \<Rightarrow> Inl err | Inr x \<Rightarrow> f x)"

text \<open>\<^verbatim>\<open>last_name, first_name = ...\<close>: unpacking anything but the pair raises.\<close>

fun unpack2 :: "name_result \<Rightarrow> py_error + string \<times> string" where
  "unpack2 PyNone = Inl TypeError"
| "unpack2 EmptyString = Inl ValueError"
| "unpack2 (NamePair l f) = Inr (l, f)"

definition get_info :: "env \<Rightarrow> string \<Rightarrow> event list \<times> (py_error + string option)" where
  "get_info e url =
     (case read_url e url of
        (ev, None) \<Rightarrow> (ev, Inr None)
      | (ev, Some soup) \<Rightarrow>
          (ev,
           bind (extract_name soup) (\<lambda>name.
             if truthy name then
               bind (bind (extract_name soup) unpack2) (\<lambda>(last_name, first_name).
               bind (Inr (extract_email soup)) (\<lambda>email.
               bind (extract_phone soup) (\<lambda>phone.
               bind (extract_education soup) (\<lambda>education.
                 Inr (Some (strip last_name @ '','' @ strip first_name @ '','' @
                            strip email @ '','' @ strip phone @ '','' @ strip education))))))
             else Inr None)))"

definition ok_to_crawl :: "env \<Rightarrow> string \<Rightarrow> event list \<times> bool" where
  "ok_to_crawl e url =
     (case urlparse e url of
        (scheme, hostname) \<Rightarrow>
          if scheme = [] \<or> hostname = [] then
            ([Print (''Not a valid absolute url:  '' @ url)], False)
          else
            (let robot = urljoin e (scheme @ ''://'' @ hostname) ''/robots.txt'' in
             case robots e robot of
               RobotsURLError msg \<Rightarrow>
                 ([Fetch robot,
                   Print (''Error opening robot.txt for url '' @ url @ [CHR 0x0A] @ msg)], False)
             | Policy can_fetch \<Rightarrow> ([Fetch robot], can_fetch url)))"

definition header :: string where
  "header = ''Last Name,First Name,Email,Phone Number,Education '' @ [CHR 0x0A]"

text \<open>The loop of \<^verbatim>\<open>harvest\<close> over the indices \<open>is\<close>: an exception ends it, and what
  was written before stays written.\<close>

fun harvest_rows :: "env \<Rightarrow> string list \<Rightarrow> nat list \<Rightarrow> event list \<times> (py_error + unit)" where
  "harvest_rows e links [] = ([], Inr ())"
| "harvest_rows e links (i # is) =
     (case item_at links (int i) of
        Inl err \<Rightarrow> ([], Inl err)
      | Inr link \<Rightarrow>
          (case get_info e link of
             (ev, Inl err) \<Rightarrow> (ev, Inl err)
           | (ev, Inr None) \<Rightarrow>
               (case harvest_rows e links is of (ev', r) \<Rightarrow> (ev @ ev', r))
           | (ev, Inr (Some info)) \<Rightarrow>
               (case harvest_rows e links is of
                  (ev', r) \<Rightarrow> (ev @ [WriteFile (info @ [CHR 0x0A])] @ ev', r))))"

text \<open>\<^verbatim>\<open>len(people_links)\<close> raises TypeError when the index page could not be read and
  \<^verbatim>\<open>people_links\<close> is \<^verbatim>\<open>None\<close>; the file is open and the header written by then.\<close>

definition harvest :: "env \<Rightarrow> string \<Rightarrow> string \<Rightarrow> event list \<times> (py_error + unit)" where
  "harvest e url filename =
     (case get_people_links e url of
        (ev, people_links) \<Rightarrow>
          (case people_links of
             None \<Rightarrow> (ev @ [OpenFile filename, WriteFile header], Inl TypeError)
           | Some links \<Rightarrow>
               (case harvest_rows e links [1 ..< length links] of
                  (ev', r) \<Rightarrow> (ev @ [OpenFile filename, WriteFile header] @ ev', r))))"

section \<open>The command line\<close>

text \<open>\<^verbatim>\<open>p.rfind(c)\<close>: the last index of the character, or -1.\<close>

definition rfind :: "char \<Rightarrow> string \<Rightarrow> int" where
  "rfind c p =
     (case filter (\<lambda>i. p ! i = c) (rev [0 ..< length p]) of
        [] \<Rightarrow> - 1
      | i # is \<Rightarrow> int i)"

text \<open>\<^verbatim>\<open>os.path.splitext\<close> on POSIX: the extension starts at the last full stop of the
  last path component, unless only full stops stand before it in that component.\<close>

definition splitext :: "string \<Rightarrow> string \<times> string" where
  "splitext p =
     (let sepIndex = rfind CHR ''/'' p;
          dotIndex = rfind CHR ''.'' p
      in if dotIndex > sepIndex \<and>
            list_ex (\<lambda>i. p ! i \<noteq> CHR ''.'') [nat (sepIndex + 1) ..< nat dotIndex]
         then (take (nat dotIndex) p, drop (nat dotIndex) p)
         else (p, []))"

text \<open>\<open>argv\<close> is \<^verbatim>\<open>sys.argv\<close>: the name of the script, then the arguments.\<close>

definition main :: "env \<Rightarrow> string list \<Rightarrow> event list \<times> (py_error + unit)" where
  "main e argv =
     (if length argv \<noteq> 2 then
        ([Print ''Error: invalid number of arguments'',
          Print ''Usage: scrape.py filename''], Inr ())
      else if snd (splitext (argv ! 1)) \<noteq> ''.csv'' then
        ([Print ''Please specify a csv filename''], Inr ())
      else
        (case ok_to_crawl e ''https://sjsu.edu/people/'' of
           (ev, ok) \<Rightarrow>
             if ok then
               (case harvest e ''https://sjsu.edu/people/'' (argv ! 1) of
                  (ev', r) \<Rightarrow> (ev @ ev', r))
             else (ev @ [Print ''This URL cannot be fetched!''], Inr ())))"

section \<open>What the patterns mean\<close>

text \<open>
  The meaning of a pattern, apart from the order in which the matcher looks for a
  match: \<open>accepts ic p pos s n\<close> says that the sequence \<open>p\<close> can match exactly the first
  \<open>n\<close> characters of \<open>s\<close>, which starts at index \<open>pos\<close> of the subject string. A
  quantified atom takes some number \<open>k\<close> of characters of its class that its quantifier
  allows. \<open>matches_at re s i n\<close> says that an alternative of \<open>re\<close> matches the \<open>n\<close>
  characters of \<open>s\<close> from index \<open>i\<close>.
\<close>

fun qfits :: "quant \<Rightarrow> nat \<Rightarrow> bool" where
  "qfits One k = (k = 1)"
| "qfits Opt k = (k \<le> 1)"
| "qfits Plus k = (1 \<le> k)"
| "qfits (Times n) k = (k = n)"

fun accepts :: "bool \<Rightarrow> item list \<Rightarrow> nat \<Rightarrow> string \<Rightarrow> nat \<Rightarrow> bool" where
  "accepts ic [] pos s n = (n = 0)"
| "accepts ic (Bol # r) pos s n = (pos = 0 \<and> accepts ic r pos s n)"
| "accepts ic (Eol # r) pos s n = ((s = [] \<or> s = [CHR 0x0A]) \<and> accepts ic r pos s n)"
| "accepts ic (Atom c q # r) pos s n =
     (\<exists>k \<in> set [0 ..< Suc n]. qfits q k \<and> k \<le> length s \<and> list_all (cmatch ic c) (take k s) \<and>
        accepts ic r (pos + k) (drop k s) (n - k))"

fun matches_at :: "regex \<Rightarrow> string \<Rightarrow> nat \<Rightarrow> nat \<Rightarrow> bool" where
  "matches_at (Regex ic alts) s i n =
     (i \<le> length s \<and> list_ex (\<lambda>p. accepts ic p i (drop i s) n) alts)"

text \<open>
  For a pattern without anchors the same meaning, told of the matched string alone:
  \<open>word_ok ic p w\<close> says that \<open>w\<close> splits into one part for each atom of \<open>p\<close>, each part
  made of characters of the atom's class and of a length its quantifier allows.
\<close>

fun anchor_free :: "item list \<Rightarrow> bool" where
  "anchor_free [] = True"
| "anchor_free (Atom c q # r) = anchor_free r"
| "anchor_free (Bol # r) = False"
| "anchor_free (Eol # r) = False"

fun word_ok :: "bool \<Rightarrow> item list \<Rightarrow> string \<Rightarrow> bool" where
  "word_ok ic [] w = (w = [])"
| "word_ok ic (Atom c q # r) w =
     (\<exists>u v. w = u @ v \<and> qfits q (length u) \<and> list_all (cmatch ic c) u \<and> word_ok ic r v)"
| "word_ok ic (Bol # r) w = word_ok ic r w"
| "word_ok ic (Eol # r) w = word_ok ic r w"

text \<open>The loose email shape: characters that are not whitespace, a commercial at, more of
  them, a full stop, and more of them, each run at least one character long.\<close>

definition email_shape :: "string \<Rightarrow> bool" where
  "email_shape m =
     (\<exists>a b c. m = a @ ''@'' @ b @ ''.'' @ c \<and> a \<noteq> [] \<and> b \<noteq> [] \<and> c \<noteq> [] \<and>
              list_all (\<lambda>x. \<not> isspace x) (a @ b @ c))"







text \<open>The kinds of effect that the claims about a run speak of.\<close>

fun is_print :: "event \<Rightarrow> bool" where
  "is_print (Print m) = True"
| "is_print (Fetch u) = False"
| "is_print (OpenFile f) = False"
| "is_print (WriteFile w) = False"

fun is_write :: "event \<Rightarrow> bool" where
  "is_write (WriteFile w) = True"
| "is_write (Fetch u) = False"
| "is_write (Print m) = False"
| "is_write (OpenFile f) = False"

section \<open>Properties of the string functions\<close>

lemma split_on_unfold:
  "split_on d s = takeWhile (\<lambda>c. c \<noteq> d) s #
     (if d \<in> set s then split_on d (tl (dropWhile (\<lambda>c. c \<noteq> d) s)) else [])"
  by (induction s) (auto split: list.splits)

lemma item_at_last: "xs \<noteq> [] \<Longrightarrow> item_at xs (- 1) = Inr (last xs)"
  by (cases xs rule: rev_cases) (auto simp: item_at_def nth_append)

lemma item_at_first: "xs \<noteq> [] \<Longrightarrow> item_at xs 0 = Inr (hd xs)"
  by (cases xs) (auto simp: item_at_def)

lemma split_on_first: "item_at (split_on d s) 0 = Inr (takeWhile (\<lambda>c. c \<noteq> d) s)"
proof -
  obtain ws where "split_on d s = takeWhile (\<lambda>c. c \<noteq> d) s # ws"
    using split_on_unfold [of d s] by blast
  then show ?thesis by (simp add: item_at_def)
qed

lemma split_on_second:
  assumes "d \<in> set s"
  shows "item_at (split_on d s) 1 =
           Inr (takeWhile (\<lambda>c. c \<noteq> d) (tl (dropWhile (\<lambda>c. c \<noteq> d) s)))"
proof -
  define r where "r = tl (dropWhile (\<lambda>c. c \<noteq> d) s)"
  have 1: "split_on d s = takeWhile (\<lambda>c. c \<noteq> d) s # split_on d r"
    using assms unfolding r_def by (subst split_on_unfold) simp
  obtain ws where 2: "split_on d r = takeWhile (\<lambda>c. c \<noteq> d) r # ws"
    using split_on_unfold [of d r] by blast
  show ?thesis
    unfolding r_def [symmetric] 1 2 by (simp add: item_at_def)
qed

text \<open>The tokens of \<^verbatim>\<open>s.split()\<close> are not empty, hold no whitespace, and together are
  the characters of \<open>s\<close> that are not whitespace.\<close>

lemma split_acc_tokens:
  "\<forall>c \<in> set cur. \<not> isspace c \<Longrightarrow> t \<in> set (split_acc cur s) \<Longrightarrow> t \<noteq> [] \<and> (\<forall>c \<in> set t. \<not> isspace c)"
proof (induction cur s rule: split_acc.induct)
  case (1 cur)
  then show ?case by (cases "cur = []") simp_all
next
  case (2 cur c cs)
  show ?case
  proof (cases "isspace c")
    case True
    show ?thesis
    proof (cases "cur = []")
      case e: True
      from "2.prems"(2) True e have "t \<in> set (split_acc [] cs)" by simp
      with "2.IH"(1) [OF True e] show ?thesis by simp
    next
      case e: False
      with True "2.prems"(2) have "t = cur \<or> t \<in> set (split_acc [] cs)" by simp
      then show ?thesis
      proof
        assume "t = cur" with e "2.prems"(1) show ?thesis by simp
      next
        assume "t \<in> set (split_acc [] cs)"
        with "2.IH"(2) [OF True e] show ?thesis by simp
      qed
    qed
  next
    case False
    with "2.prems"(2) have "t \<in> set (split_acc (cur @ [c]) cs)" by simp
    moreover from False "2.prems"(1) have "\<forall>x \<in> set (cur @ [c]). \<not> isspace x" by simp
    ultimately show ?thesis using "2.IH"(3) [OF False] by blast
  qed
qed

lemma split_ws_tokens: "t \<in> set (split_ws s) \<Longrightarrow> t \<noteq> [] \<and> (\<forall>c \<in> set t. \<not> isspace c)"
  unfolding split_ws_def using split_acc_tokens [of "[]" t s] by simp

lemma split_acc_concat:
  "concat (split_acc cur s) = cur @ filter (\<lambda>c. \<not> isspace c) s"
  by (induction cur s rule: split_acc.induct) simp_all

lemma split_ws_concat: "concat (split_ws s) = filter (\<lambda>c. \<not> isspace c) s"
  by (simp add: split_ws_def split_acc_concat)

section \<open>The name extractor: claims\<close>






section \<open>The matcher finds the leftmost match\<close>

lemma first_some_Some:
  "first_some f xs = Some y \<Longrightarrow> \<exists>x \<in> set xs. f x = Some y"
  by (induction xs) (auto split: option.splits)

lemma first_some_None: "(first_some f xs = None) = (\<forall>x \<in> set xs. f x = None)"
  by (induction xs) (auto split: option.splits)

lemma first_some_upt:
  "first_some f [a ..< b] = Some y \<Longrightarrow>
     \<exists>i. a \<le> i \<and> i < b \<and> f i = Some y \<and> (\<forall>j. a \<le> j \<and> j < i \<longrightarrow> f j = None)"
proof (induction "b - a" arbitrary: a)
  case 0
  then show ?case by simp
next
  case (Suc d)
  then have ab: "a < b" by simp
  then have up: "[a ..< b] = a # [Suc a ..< b]" by (simp add: upt_conv_Cons)
  show ?case
  proof (cases "f a")
    case (Some z)
    with Suc.prems up have "z = y" by simp
    with Some ab show ?thesis by (intro exI [of _ a]) auto
  next
    case None
    with Suc.prems up have "first_some f [Suc a ..< b] = Some y" by simp
    moreover from Suc.hyps(2) have "d = b - Suc a" by simp
    ultimately obtain i where i: "Suc a \<le> i" "i < b" "f i = Some y"
        "\<forall>j. Suc a \<le> j \<and> j < i \<longrightarrow> f j = None"
      using Suc.hyps(1) by blast
    have "\<forall>j. a \<le> j \<and> j < i \<longrightarrow> f j = None"
    proof (intro allI impI)
      fix j assume j: "a \<le> j \<and> j < i"
      show "f j = None"
      proof (cases "j = a")
        case True with None show ?thesis by simp
      next
        case False with j i(4) show ?thesis by simp
      qed
    qed
    with i show ?thesis by (intro exI [of _ i]) auto
  qed
qed

lemma le_takeWhile_all:
  "k \<le> length (takeWhile P s) \<Longrightarrow> list_all P (take k s)"
proof (induction s arbitrary: k)
  case Nil
  then show ?case by simp
next
  case (Cons x xs)
  then show ?case by (cases k) (auto split: if_splits)
qed

lemma all_le_takeWhile:
  "list_all P (take k s) \<Longrightarrow> k \<le> length s \<Longrightarrow> k \<le> length (takeWhile P s)"
proof (induction s arbitrary: k)
  case Nil
  then show ?case by simp
next
  case (Cons x xs)
  then show ?case by (cases k) auto
qed

text \<open>The matcher is sound and complete for the meaning of the patterns: what it returns
  is a match, and it returns one whenever there is one.\<close>

lemma candidates:
  "(k \<in> set (rev [qmin q ..< Suc (qmax q avail)])) = (qfits q k \<and> k \<le> avail)"
  by (cases q) auto

lemma match_here_sound:
  "match_here ic p pos s = Some n \<Longrightarrow> accepts ic p pos s n"
proof (induction ic p pos s arbitrary: n rule: match_here.induct)
  case (1 ic pos s)
  then show ?case by simp
next
  case (2 ic r pos s)
  then show ?case by (simp split: if_splits)
next
  case (3 ic r pos s)
  then show ?case by (simp split: if_splits)
next
  case (4 ic c q r pos s)
  define avail where "avail = length (takeWhile (cmatch ic c) s)"
  have "first_some (\<lambda>k. map_option (\<lambda>n. k + n) (match_here ic r (pos + k) (drop k s)))
          (rev [qmin q ..< Suc (qmax q avail)]) = Some n"
    using "4.prems" unfolding avail_def match_here.simps Let_def .
  then obtain k where
    k: "k \<in> set (rev [qmin q ..< Suc (qmax q avail)])"
    and fk: "map_option (\<lambda>n. k + n) (match_here ic r (pos + k) (drop k s)) = Some n"
    by (blast dest: first_some_Some)
  from fk obtain m where m: "match_here ic r (pos + k) (drop k s) = Some m" and n: "n = k + m"
    by auto
  from k have q: "qfits q k" and ka: "k \<le> avail" by (simp_all only: candidates)
  from ka have all: "list_all (cmatch ic c) (take k s)"
    unfolding avail_def by (rule le_takeWhile_all)
  from ka have kl: "k \<le> length s"
    unfolding avail_def using length_takeWhile_le [of "cmatch ic c" s] by simp
  have "accepts ic r (pos + k) (drop k s) m"
    using "4.IH" [OF refl m] .
  with q kl all n show ?case
    by (auto intro!: bexI [of _ k])
qed

lemma match_here_complete:
  "accepts ic p pos s n \<Longrightarrow> match_here ic p pos s \<noteq> None"
proof (induction ic p pos s arbitrary: n rule: match_here.induct)
  case (1 ic pos s)
  then show ?case by simp
next
  case (2 ic r pos s)
  then show ?case by auto
next
  case (3 ic r pos s)
  then show ?case by auto
next
  case (4 ic c q r pos s)
  define avail where "avail = length (takeWhile (cmatch ic c) s)"
  define f where "f = (\<lambda>k. map_option (\<lambda>n. k + n) (match_here ic r (pos + k) (drop k s)))"
  from "4.prems" obtain k where q: "qfits q k" and kl: "k \<le> length s"
    and all: "list_all (cmatch ic c) (take k s)"
    and acc: "accepts ic r (pos + k) (drop k s) (n - k)"
    by auto
  from all kl have "k \<le> avail"
    unfolding avail_def by (rule all_le_takeWhile)
  with q have k: "k \<in> set (rev [qmin q ..< Suc (qmax q avail)])"
    by (simp only: candidates)
  have "match_here ic r (pos + k) (drop k s) \<noteq> None"
    using "4.IH" [OF refl acc] .
  then have "f k \<noteq> None" unfolding f_def by simp
  with k have "first_some f (rev [qmin q ..< Suc (qmax q avail)]) \<noteq> None"
    by (auto simp: first_some_None simp del: upt_Suc set_rev)
  then show ?case
    unfolding f_def avail_def match_here.simps Let_def .
qed

lemma match_alts_sound:
  "match_alts (Regex ic alts) pos s = Some n \<Longrightarrow> list_ex (\<lambda>p. accepts ic p pos s n) alts"
proof -
  assume "match_alts (Regex ic alts) pos s = Some n"
  then have "first_some (\<lambda>p. match_here ic p pos s) alts = Some n" by simp
  then obtain p where "p \<in> set alts" "match_here ic p pos s = Some n"
    by (blast dest: first_some_Some)
  then show ?thesis
    unfolding list_ex_iff using match_here_sound by blast
qed

lemma match_alts_complete:
  "list_ex (\<lambda>p. accepts ic p pos s n) alts \<Longrightarrow> match_alts (Regex ic alts) pos s \<noteq> None"
proof -
  assume "list_ex (\<lambda>p. accepts ic p pos s n) alts"
  then obtain p where p: "p \<in> set alts" "accepts ic p pos s n"
    unfolding list_ex_iff by blast
  then have "match_here ic p pos s \<noteq> None" using match_here_complete by blast
  with p(1) have "first_some (\<lambda>p. match_here ic p pos s) alts \<noteq> None"
    by (auto simp: first_some_None)
  then show ?thesis by simp
qed

text \<open>The match that \<open>re_search\<close> returns is a match of the pattern, and no match starts
  to its left; when it returns none the pattern has no match in the string.\<close>

lemma re_search_Some:
  assumes "re_search re s = Some (i, n)"
  shows "matches_at re s i n \<and> (\<forall>j m. j < i \<longrightarrow> \<not> matches_at re s j m)"
proof -
  obtain ic alts where re: "re = Regex ic alts" by (cases re)
  define f where "f = (\<lambda>i. map_option (\<lambda>n. (i, n)) (match_alts re i (drop i s)))"
  from assms have "first_some f [0 ..< Suc (length s)] = Some (i, n)"
    unfolding re_search_def f_def .
  then obtain i' where i': "i' < Suc (length s)" "f i' = Some (i, n)"
    and least: "\<forall>j. 0 \<le> j \<and> j < i' \<longrightarrow> f j = None"
    using first_some_upt [of f 0 "Suc (length s)" "(i, n)"] by blast
  from i'(2) have eq: "i' = i" and m: "match_alts re i (drop i s) = Some n"
    unfolding f_def by auto
  from m have "list_ex (\<lambda>p. accepts ic p i (drop i s) n) alts"
    unfolding re by (rule match_alts_sound)
  with i'(1) eq have 1: "matches_at re s i n" unfolding re by simp
  have 2: "\<forall>j m. j < i \<longrightarrow> \<not> matches_at re s j m"
  proof (intro allI impI notI)
    fix j m assume j: "j < i" and ma: "matches_at re s j m"
    from ma have "list_ex (\<lambda>p. accepts ic p j (drop j s) m) alts"
      unfolding re by simp
    then have "match_alts re j (drop j s) \<noteq> None"
      unfolding re by (rule match_alts_complete)
    then have "f j \<noteq> None" unfolding f_def by simp
    with least j eq show False by simp
  qed
  from 1 2 show ?thesis by (rule conjI)
qed

lemma re_search_None:
  assumes "re_search re s = None"
  shows "\<not> matches_at re s i n"
proof
  assume ma: "matches_at re s i n"
  obtain ic alts where re: "re = Regex ic alts" by (cases re)
  from ma have il: "i \<le> length s"
    and ex: "list_ex (\<lambda>p. accepts ic p i (drop i s) n) alts"
    unfolding re by simp_all
  from ex have "match_alts re i (drop i s) \<noteq> None"
    unfolding re by (rule match_alts_complete)
  then have "map_option (\<lambda>n. (i, n)) (match_alts re i (drop i s)) \<noteq> None" by simp
  moreover from il have "i \<in> set [0 ..< Suc (length s)]" by auto
  ultimately have "re_search re s \<noteq> None"
    unfolding re_search_def by (auto simp: first_some_None simp del: upt_Suc)
  with assms show False by simp
qed

lemma re_search_iff: "(re_search re s \<noteq> None) = (\<exists>i n. matches_at re s i n)"
proof
  assume "re_search re s \<noteq> None"
  then obtain i n where "re_search re s = Some (i, n)" by auto
  then show "\<exists>i n. matches_at re s i n" using re_search_Some by blast
next
  assume "\<exists>i n. matches_at re s i n"
  then show "re_search re s \<noteq> None" using re_search_None by blast
qed


section \<open>The patterns as shapes\<close>

lemma accepts_atom_k:
  "accepts ic (Atom c q # r) pos s n =
     (\<exists>k. k \<le> n \<and> qfits q k \<and> k \<le> length s \<and> list_all (cmatch ic c) (take k s) \<and>
        accepts ic r (pos + k) (drop k s) (n - k))"
proof -
  have "\<And>k. (k \<in> set [0 ..< Suc n]) = (k \<le> n)" by auto
  then show ?thesis unfolding accepts.simps Bex_def by blast
qed

lemma accepts_length: "accepts ic p pos s n \<Longrightarrow> n \<le> length s"
proof (induction p arbitrary: pos s n)
  case Nil
  then show ?case by simp
next
  case (Cons it p)
  show ?case
  proof (cases it)
    case (Atom c q)
    from Cons.prems have "accepts ic (Atom c q # p) pos s n" unfolding Atom .
    then obtain k where k: "k \<le> length s"
      and r: "accepts ic p (pos + k) (drop k s) (n - k)"
      unfolding accepts_atom_k by blast
    from Cons.IH [OF r] have "n - k \<le> length s - k" by simp
    with k show ?thesis by simp
  next
    case Bol
    with Cons.prems have "accepts ic p pos s n" by auto
    then show ?thesis by (rule Cons.IH)
  next
    case Eol
    with Cons.prems have "accepts ic p pos s n" by auto
    then show ?thesis by (rule Cons.IH)
  qed
qed

text \<open>For a pattern without anchors, a match of length \<open>n\<close> at the head of \<open>s\<close> is a
  word of the pattern that is the first \<open>n\<close> characters of \<open>s\<close>.\<close>

lemma accepts_word:
  "anchor_free p \<Longrightarrow> accepts ic p pos s n = (n \<le> length s \<and> word_ok ic p (take n s))"
proof (induction p arbitrary: pos s n)
  case Nil
  show ?case by auto
next
  case (Cons it p)
  show ?case
  proof (cases it)
    case (Atom c q)
    with Cons.prems have af: "anchor_free p" by simp
    note IH = Cons.IH [OF af]
    show ?thesis
    proof
      assume a: "accepts ic (it # p) pos s n"
      then have n: "n \<le> length s" by (rule accepts_length)
      from a obtain k where k: "k \<le> n" "qfits q k" "k \<le> length s"
        "list_all (cmatch ic c) (take k s)" "accepts ic p (pos + k) (drop k s) (n - k)"
        unfolding Atom accepts_atom_k by blast
      from k(5) have w: "word_ok ic p (take (n - k) (drop k s))" unfolding IH by simp
      have "take n s = take (k + (n - k)) s" using k(1) by simp
      also have "\<dots> = take k s @ take (n - k) (drop k s)" by (rule take_add)
      finally have t: "take n s = take k s @ take (n - k) (drop k s)" .
      from k(3) have "length (take k s) = k" by simp
      with k(2,4) w t have "word_ok ic (Atom c q # p) (take n s)"
        unfolding word_ok.simps by (intro exI [of _ "take k s"] exI [of _ "take (n - k) (drop k s)"]) simp
      with n show "n \<le> length s \<and> word_ok ic (it # p) (take n s)" unfolding Atom by simp
    next
      assume "n \<le> length s \<and> word_ok ic (it # p) (take n s)"
      then obtain u v where n: "n \<le> length s" and t: "take n s = u @ v"
        and q: "qfits q (length u)" and c: "list_all (cmatch ic c) u" and w: "word_ok ic p v"
        unfolding Atom word_ok.simps by blast
      from t n have len: "n = length u + length v"
        by (metis length_append length_take min.absorb2)
      have "take (length u) (take n s) = u" unfolding t by simp
      with len have tu: "take (length u) s = u" by (simp add: min_def)
      have "drop (length u) (take n s) = v" unfolding t by simp
      then have tv: "take (n - length u) (drop (length u) s) = v" by (simp add: drop_take)
      from len n have lv: "n - length u \<le> length (drop (length u) s)" by simp
      from w tv lv have "accepts ic p (pos + length u) (drop (length u) s) (n - length u)"
        unfolding IH by simp
      moreover from len n have "length u \<le> n" "length u \<le> length s" by simp_all
      ultimately show "accepts ic (it # p) pos s n"
        unfolding Atom accepts_atom_k using q c tu by (intro exI [of _ "length u"]) simp
    qed
  next
    case Bol
    with Cons.prems show ?thesis by simp
  next
    case Eol
    with Cons.prems show ?thesis by simp
  qed
qed

lemma word_okE:
  assumes "word_ok ic (Atom c q # r) w"
  obtains u v where "w = u @ v" "qfits q (length u) \<and> list_all (cmatch ic c) u" "word_ok ic r v"
  using assms by auto

lemma word_okI:
  "w = u @ v \<Longrightarrow> qfits q (length u) \<and> list_all (cmatch ic c) u \<Longrightarrow> word_ok ic r v \<Longrightarrow>
     word_ok ic (Atom c q # r) w"
  by auto

lemma lit_one: "(qfits One (length u) \<and> list_all (cmatch False (Lit x)) u) = (u = [x])"
  by (cases u) auto

lemma nonspace_plus:
  "(qfits Plus (length u) \<and> list_all (cmatch False NonSpace) u)
     = (u \<noteq> [] \<and> list_all (\<lambda>x. \<not> isspace x) u)"
  by (cases u) (auto simp: list_all_iff)

text \<open>The email pattern matches exactly the substrings of the loose email shape.\<close>

lemma word_email:
  "word_ok False [Atom NonSpace Plus, Atom (Lit CHR ''@'') One, Atom NonSpace Plus,
       Atom (Lit CHR ''.'') One, Atom NonSpace Plus] w = email_shape w"
proof
  assume a: "word_ok False [Atom NonSpace Plus, Atom (Lit CHR ''@'') One, Atom NonSpace Plus,
       Atom (Lit CHR ''.'') One, Atom NonSpace Plus] w"
  from a obtain u1 v1 where 1: "w = u1 @ v1" "u1 \<noteq> [] \<and> list_all (\<lambda>x. \<not> isspace x) u1"
    and a1: "word_ok False [Atom (Lit CHR ''@'') One, Atom NonSpace Plus,
       Atom (Lit CHR ''.'') One, Atom NonSpace Plus] v1"
    unfolding nonspace_plus [symmetric] by (rule word_okE)
  from a1 obtain u2 v2 where 2: "v1 = u2 @ v2" "u2 = ''@''"
    and a2: "word_ok False [Atom NonSpace Plus, Atom (Lit CHR ''.'') One, Atom NonSpace Plus] v2"
    unfolding lit_one [symmetric] by (rule word_okE)
  from a2 obtain u3 v3 where 3: "v2 = u3 @ v3" "u3 \<noteq> [] \<and> list_all (\<lambda>x. \<not> isspace x) u3"
    and a3: "word_ok False [Atom (Lit CHR ''.'') One, Atom NonSpace Plus] v3"
    unfolding nonspace_plus [symmetric] by (rule word_okE)
  from a3 obtain u4 v4 where 4: "v3 = u4 @ v4" "u4 = ''.''"
    and a4: "word_ok False [Atom NonSpace Plus] v4"
    unfolding lit_one [symmetric] by (rule word_okE)
  from a4 obtain u5 v5 where 5: "v4 = u5 @ v5" "u5 \<noteq> [] \<and> list_all (\<lambda>x. \<not> isspace x) u5"
    and a5: "word_ok False [] v5"
    unfolding nonspace_plus [symmetric] by (rule word_okE)
  from a5 have "v5 = []" by simp
  with 1 2 3 4 5 have "w = u1 @ ''@'' @ u3 @ ''.'' @ u5 \<and> u1 \<noteq> [] \<and> u3 \<noteq> [] \<and> u5 \<noteq> [] \<and>
      list_all (\<lambda>x. \<not> isspace x) (u1 @ u3 @ u5)"
    by simp
  then show "email_shape w" unfolding email_shape_def by blast
next
  assume "email_shape w"
  then obtain a b c where w: "w = a @ ''@'' @ b @ ''.'' @ c"
    and a: "a \<noteq> [] \<and> list_all (\<lambda>x. \<not> isspace x) a"
    and b: "b \<noteq> [] \<and> list_all (\<lambda>x. \<not> isspace x) b"
    and c: "c \<noteq> [] \<and> list_all (\<lambda>x. \<not> isspace x) c"
    unfolding email_shape_def by auto
  have a': "qfits Plus (length a) \<and> list_all (cmatch False NonSpace) a"
    unfolding nonspace_plus by (rule a)
  have b': "qfits Plus (length b) \<and> list_all (cmatch False NonSpace) b"
    unfolding nonspace_plus by (rule b)
  have c': "qfits Plus (length c) \<and> list_all (cmatch False NonSpace) c"
    unfolding nonspace_plus by (rule c)
  have e: "word_ok False [] []" by simp
  have 5: "word_ok False [Atom NonSpace Plus] c"
    by (rule word_okI [OF _ c' e]) simp
  have 4: "word_ok False [Atom (Lit CHR ''.'') One, Atom NonSpace Plus] (''.'' @ c)"
    by (rule word_okI [OF refl _ 5]) simp
  have 3: "word_ok False [Atom NonSpace Plus, Atom (Lit CHR ''.'') One, Atom NonSpace Plus]
      (b @ ''.'' @ c)"
    by (rule word_okI [OF refl b' 4])
  have 2: "word_ok False [Atom (Lit CHR ''@'') One, Atom NonSpace Plus, Atom (Lit CHR ''.'') One,
      Atom NonSpace Plus] (''@'' @ b @ ''.'' @ c)"
    by (rule word_okI [OF refl _ 3]) simp
  show "word_ok False [Atom NonSpace Plus, Atom (Lit CHR ''@'') One, Atom NonSpace Plus,
       Atom (Lit CHR ''.'') One, Atom NonSpace Plus] w"
    unfolding w by (rule word_okI [OF refl a' 2])
qed

lemma matches_email:
  "matches_at email_pattern s i n = (i + n \<le> length s \<and> email_shape (take n (drop i s)))"
proof -
  have af: "anchor_free [Atom NonSpace Plus, Atom (Lit CHR ''@'') One,
         Atom NonSpace Plus, Atom (Lit CHR ''.'') One, Atom NonSpace Plus]" by simp
  have "matches_at email_pattern s i n =
      (i \<le> length s \<and> accepts False [Atom NonSpace Plus, Atom (Lit CHR ''@'') One,
         Atom NonSpace Plus, Atom (Lit CHR ''.'') One, Atom NonSpace Plus] i (drop i s) n)"
    unfolding email_pattern_def matches_at.simps by simp
  also have "\<dots> = (i \<le> length s \<and> n \<le> length (drop i s) \<and> email_shape (take n (drop i s)))"
    unfolding accepts_word [OF af] word_email ..
  also have "\<dots> = (i + n \<le> length s \<and> email_shape (take n (drop i s)))"
    by auto
  finally show ?thesis .
qed





section \<open>Searching the document\<close>

lemma find_first_None: "(find_first P xs = None) = (\<forall>x \<in> set xs. \<not> P x)"
  by (induction xs) auto

lemma find_first_Some:
  "find_first P xs = Some (x, rest) \<Longrightarrow>
     \<exists>pre. xs = pre @ x # rest \<and> P x \<and> (\<forall>y \<in> set pre. \<not> P y)"
proof (induction xs)
  case Nil
  then show ?case by simp
next
  case (Cons a xs)
  show ?case
  proof (cases "P a")
    case True
    with Cons.prems have "a = x" "xs = rest" by simp_all
    with True show ?thesis by (intro exI [of _ "[]"]) simp
  next
    case False
    with Cons.prems have "find_first P xs = Some (x, rest)" by simp
    then obtain pre where "xs = pre @ x # rest" "P x" "\<forall>y \<in> set pre. \<not> P y"
      using Cons.IH by blast
    with False show ?thesis by (intro exI [of _ "a # pre"]) simp
  qed
qed


lemma find_string_None:
  "(find_string re xs = None) = (\<forall>s. Text s \<in> set xs \<longrightarrow> re_search re s = None)"
proof (induction xs)
  case Nil
  then show ?case by simp
next
  case (Cons a xs)
  show ?case
  proof (cases a)
    case (Tag n at cs)
    with Cons show ?thesis by simp
  next
    case (Text t)
    with Cons show ?thesis by (cases "re_search re t") auto
  qed
qed

lemma find_string_split:
  "(\<forall>t. Text t \<in> set pre \<longrightarrow> re_search re t = None) \<Longrightarrow> re_search re s \<noteq> None \<Longrightarrow>
     find_string re (pre @ Text s # rest) = Some (s, rest)"
proof (induction pre)
  case Nil
  then show ?case by simp
next
  case (Cons a pre)
  then show ?case by (cases a) auto
qed

lemma find_string_Some:
  "find_string re xs = Some (s, rest) \<Longrightarrow>
     \<exists>pre. xs = pre @ Text s # rest \<and> re_search re s \<noteq> None \<and>
           (\<forall>t. Text t \<in> set pre \<longrightarrow> re_search re t = None)"
proof (induction xs)
  case Nil
  then show ?case by simp
next
  case (Cons a xs)
  show ?case
  proof (cases a)
    case (Tag n at cs)
    with Cons.prems have "find_string re xs = Some (s, rest)" by simp
    then obtain pre where "xs = pre @ Text s # rest" "re_search re s \<noteq> None"
        "\<forall>t. Text t \<in> set pre \<longrightarrow> re_search re t = None"
      using Cons.IH by blast
    with Tag show ?thesis by (intro exI [of _ "a # pre"]) simp
  next
    case (Text t)
    show ?thesis
    proof (cases "re_search re t = None")
      case True
      with Text Cons.prems have "find_string re xs = Some (s, rest)" by simp
      then obtain pre where "xs = pre @ Text s # rest" "re_search re s \<noteq> None"
          "\<forall>t. Text t \<in> set pre \<longrightarrow> re_search re t = None"
        using Cons.IH by blast
      with Text True show ?thesis by (intro exI [of _ "a # pre"]) simp
    next
      case False
      with Text Cons.prems have "t = s" "xs = rest" by simp_all
      with Text False show ?thesis by (intro exI [of _ "[]"]) simp
    qed
  qed
qed







section \<open>The email extractor: claims\<close>

lemma email_match_nonempty:
  assumes "matches_at email_pattern s i n"
  shows "s \<noteq> []"
proof
  assume "s = []"
  with assms show False
    by (auto simp: email_pattern_def)
qed

lemma first_some_rev_upt_last:
  assumes "a \<le> b" "f b = Some y"
  shows "first_some f (rev [a ..< Suc b]) = Some y"
proof -
  from assms(1) have "rev [a ..< Suc b] = b # rev [a ..< b]" by simp
  with assms(2) show ?thesis by simp
qed

text \<open>A pattern that ends in \<^verbatim>\<open>\S+\<close> matches up to the end of the string or up to a
  whitespace character.\<close>

lemma match_here_ends_token:
  "match_here ic (p @ [Atom NonSpace Plus]) pos s = Some n \<Longrightarrow>
     n \<le> length s \<and> (drop n s = [] \<or> isspace (hd (drop n s)))"
proof (induction p arbitrary: pos s n)
  case Nil
  define avail where "avail = length (takeWhile (cmatch ic NonSpace) s)"
  define f where "f = (\<lambda>k. map_option (\<lambda>n. k + n) (match_here ic [] (pos + k) (drop k s)))"
  have fk: "\<And>k. f k = Some k" unfolding f_def by simp
  from Nil have m: "first_some f (rev [1 ..< Suc avail]) = Some n"
    unfolding f_def avail_def by (simp add: Let_def del: upt_Suc)
  have "1 \<le> avail"
  proof (rule ccontr)
    assume "\<not> 1 \<le> avail"
    then have "rev [1 ..< Suc avail] = []" by simp
    with m show False by simp
  qed
  then have "first_some f (rev [1 ..< Suc avail]) = Some avail"
    using fk by (rule first_some_rev_upt_last)
  with m have n: "n = avail" by simp
  have d: "drop avail s = dropWhile (cmatch ic NonSpace) s"
    unfolding avail_def by (simp add: dropWhile_eq_drop)
  have "n \<le> length s" unfolding n avail_def by (rule length_takeWhile_le)
  moreover have "drop n s = [] \<or> isspace (hd (drop n s))"
  proof (cases "drop n s = []")
    case True
    then show ?thesis by simp
  next
    case False
    then have "\<not> cmatch ic NonSpace (hd (dropWhile (cmatch ic NonSpace) s))"
      unfolding n d by (rule hd_dropWhile)
    then show ?thesis unfolding n d by simp
  qed
  ultimately show ?case by simp
next
  case (Cons it p)
  show ?case
  proof (cases it)
    case (Atom c q)
    define avail where "avail = length (takeWhile (cmatch ic c) s)"
    have "first_some (\<lambda>k. map_option (\<lambda>n. k + n)
             (match_here ic (p @ [Atom NonSpace Plus]) (pos + k) (drop k s)))
          (rev [qmin q ..< Suc (qmax q avail)]) = Some n"
      using Cons.prems unfolding Atom avail_def by (simp add: Let_def del: upt_Suc)
    then obtain k where
      "map_option (\<lambda>n. k + n) (match_here ic (p @ [Atom NonSpace Plus]) (pos + k) (drop k s)) = Some n"
      by (blast dest: first_some_Some)
    then obtain m where m: "match_here ic (p @ [Atom NonSpace Plus]) (pos + k) (drop k s) = Some m"
      and n: "n = k + m" by auto
    from Cons.IH [OF m] have 1: "m \<le> length (drop k s)"
      and 2: "drop m (drop k s) = [] \<or> isspace (hd (drop m (drop k s)))" by simp_all
    have "n \<le> length s"
      using Cons.prems by (intro accepts_length match_here_sound)
    moreover from 2 have "drop n s = [] \<or> isspace (hd (drop n s))"
      unfolding n by (simp add: add.commute)
    ultimately show ?thesis by simp
  next
    case Bol
    with Cons.prems have "match_here ic (p @ [Atom NonSpace Plus]) pos s = Some n"
      by (simp split: if_splits)
    then show ?thesis by (rule Cons.IH)
  next
    case Eol
    with Cons.prems have "match_here ic (p @ [Atom NonSpace Plus]) pos s = Some n"
      by (simp split: if_splits)
    then show ?thesis by (rule Cons.IH)
  qed
qed

lemma re_search_SomeD:
  assumes "re_search re s = Some (i, n)"
  shows "i \<le> length s \<and> match_alts re i (drop i s) = Some n"
proof -
  define f where "f = (\<lambda>i. map_option (\<lambda>n. (i, n)) (match_alts re i (drop i s)))"
  from assms have "first_some f [0 ..< Suc (length s)] = Some (i, n)"
    unfolding re_search_def f_def .
  then obtain i' where "i' \<in> set [0 ..< Suc (length s)]" "f i' = Some (i, n)"
    by (blast dest: first_some_Some)
  then show ?thesis unfolding f_def by auto
qed

text \<open>The match of the email pattern that \<open>re_search\<close> returns is a whole token: it starts
  at the start of the string or after a whitespace character, and ends at the end of
  the string or before a whitespace character.\<close>

lemma re_search_email_token:
  assumes "re_search email_pattern s = Some (i, n)"
  shows "(i = 0 \<or> isspace (s ! (i - 1))) \<and> (i + n = length s \<or> isspace (s ! (i + n)))"
proof
  from re_search_Some [OF assms] have m: "matches_at email_pattern s i n"
    and least: "\<forall>j m. j < i \<longrightarrow> \<not> matches_at email_pattern s j m" by blast+
  from m have le: "i + n \<le> length s" and sh: "email_shape (take n (drop i s))"
    unfolding matches_email by blast+
  show "i = 0 \<or> isspace (s ! (i - 1))"
  proof (rule ccontr)
    assume "\<not> (i = 0 \<or> isspace (s ! (i - 1)))"
    then have i: "0 < i" and ns: "\<not> isspace (s ! (i - 1))" by simp_all
    from i le have lt: "i - 1 < length s" by simp
    from i have "drop (i - 1) s = s ! (i - 1) # drop i s"
      using Cons_nth_drop_Suc [OF lt] by simp
    then have t: "take (Suc n) (drop (i - 1) s) = s ! (i - 1) # take n (drop i s)" by simp
    from sh obtain a b c where abc: "take n (drop i s) = a @ ''@'' @ b @ ''.'' @ c"
      "a \<noteq> []" "b \<noteq> []" "c \<noteq> []" "list_all (\<lambda>x. \<not> isspace x) (a @ b @ c)"
      unfolding email_shape_def by blast
    have "email_shape (take (Suc n) (drop (i - 1) s))"
      unfolding email_shape_def t
      using abc ns by (intro exI [of _ "s ! (i - 1) # a"] exI [of _ b] exI [of _ c]) simp
    moreover from i le have "(i - 1) + Suc n \<le> length s" by simp
    ultimately have "matches_at email_pattern s (i - 1) (Suc n)"
      unfolding matches_email by simp
    with least i show False by simp
  qed
  from re_search_SomeD [OF assms]
  have "match_alts email_pattern i (drop i s) = Some n" by simp
  then have "match_here False ([Atom NonSpace Plus, Atom (Lit CHR ''@'') One, Atom NonSpace Plus,
       Atom (Lit CHR ''.'') One] @ [Atom NonSpace Plus]) i (drop i s) = Some n"
    by (simp add: email_pattern_def split: option.splits del: match_here.simps)
  from match_here_ends_token [OF this]
  have e: "drop (i + n) s = [] \<or> isspace (hd (drop (i + n) s))"
    by (simp add: add.commute)
  show "i + n = length s \<or> isspace (s ! (i + n))"
  proof (cases "i + n = length s")
    case True
    then show ?thesis by simp
  next
    case False
    with le have lt: "i + n < length s" by simp
    then have "drop (i + n) s \<noteq> []" by simp
    with e have "isspace (hd (drop (i + n) s))" by simp
    with lt show ?thesis by (simp add: hd_drop_conv_nth)
  qed
qed

lemma extract_email_none:
  assumes "\<forall>s. Text s \<in> set (elements_list soup) \<longrightarrow> re_search email_pattern s = None"
  shows "extract_email soup = []"
proof -
  from assms have "find_string email_pattern (elements_list soup) = None"
    by (simp only: find_string_None)
  then show ?thesis by (simp add: extract_email_def)
qed

lemma extract_email_found:
  assumes "elements_list soup = pre @ Text s # post"
    and "\<forall>t. Text t \<in> set pre \<longrightarrow> re_search email_pattern t = None"
    and "re_search email_pattern s = Some (i, n)"
  shows "extract_email soup = strip_chars '','' (take n (drop i s))"
proof -
  from assms(3) have "re_search email_pattern s \<noteq> None" by simp
  with assms(2) have "find_string email_pattern (pre @ Text s # post) = Some (s, post)"
    by (rule find_string_split)
  with assms(1) have f: "find_string email_pattern (elements_list soup) = Some (s, post)" by simp
  from re_search_Some [OF assms(3)] have "matches_at email_pattern s i n" by blast
  then have ne: "s \<noteq> []" by (rule email_match_nonempty)
  from assms(3) have "re_group email_pattern s = Some (take n (drop i s))"
    by (simp add: re_group_def)
  with f ne show ?thesis by (simp add: extract_email_def)
qed

text \<open>
  C6 (as amended). When no text node of the document holds a substring of the loose
  email shape, the email extractor returns the empty string. Otherwise, with \<open>s\<close> the
  first text node in document order that holds one, it returns a substring of \<open>s\<close> of
  that shape with the commas at both of its ends stripped: the substring starts at the
  leftmost index where one of that shape starts, and it is a whole token of \<open>s\<close>,
  from the start of \<open>s\<close> or a whitespace character to the end of \<open>s\<close> or the next
  whitespace character.
\<close>

theorem extract_email_leftmost:
  "((\<forall>s i n. Text s \<in> set (elements_list soup) \<and> i + n \<le> length s
        \<longrightarrow> \<not> email_shape (take n (drop i s)))
      \<longrightarrow> extract_email soup = [])
   \<and> (elements_list soup = pre @ Text s # post
        \<and> (\<forall>t i n. Text t \<in> set pre \<and> i + n \<le> length t \<longrightarrow> \<not> email_shape (take n (drop i t)))
        \<and> i0 + n0 \<le> length s \<and> email_shape (take n0 (drop i0 s))
      \<longrightarrow> (\<exists>i n. i + n \<le> length s \<and> email_shape (take n (drop i s))
                 \<and> (\<forall>j m. j < i \<and> j + m \<le> length s \<longrightarrow> \<not> email_shape (take m (drop j s)))
                 \<and> (i = 0 \<or> isspace (s ! (i - 1)))
                 \<and> (i + n = length s \<or> isspace (s ! (i + n)))
                 \<and> extract_email soup = strip_chars '','' (take n (drop i s))))"
proof (intro conjI impI)
  assume "\<forall>s i n. Text s \<in> set (elements_list soup) \<and> i + n \<le> length s
        \<longrightarrow> \<not> email_shape (take n (drop i s))"
  then have "\<forall>s. Text s \<in> set (elements_list soup) \<longrightarrow> \<not> (\<exists>i n. matches_at email_pattern s i n)"
    unfolding matches_email by blast
  then have "\<forall>s. Text s \<in> set (elements_list soup) \<longrightarrow> re_search email_pattern s = None"
    using re_search_iff by blast
  then show "extract_email soup = []" by (rule extract_email_none)
next
  assume a: "elements_list soup = pre @ Text s # post
        \<and> (\<forall>t i n. Text t \<in> set pre \<and> i + n \<le> length t \<longrightarrow> \<not> email_shape (take n (drop i t)))
        \<and> i0 + n0 \<le> length s \<and> email_shape (take n0 (drop i0 s))"
  then have e: "elements_list soup = pre @ Text s # post" by blast
  from a have "\<forall>t. Text t \<in> set pre \<longrightarrow> \<not> (\<exists>i n. matches_at email_pattern t i n)"
    unfolding matches_email by blast
  then have pre: "\<forall>t. Text t \<in> set pre \<longrightarrow> re_search email_pattern t = None"
    using re_search_iff by blast
  from a have "matches_at email_pattern s i0 n0" unfolding matches_email by blast
  then have "re_search email_pattern s \<noteq> None" using re_search_None by blast
  then obtain i n where r: "re_search email_pattern s = Some (i, n)" by auto
  from re_search_Some [OF r] have 1: "i + n \<le> length s \<and> email_shape (take n (drop i s))"
    and 2: "\<forall>j m. j < i \<and> j + m \<le> length s \<longrightarrow> \<not> email_shape (take m (drop j s))"
    unfolding matches_email by blast+
  note 3 = re_search_email_token [OF r]
  note 4 = extract_email_found [OF e pre r]
  from 1 2 3 4 show "\<exists>i n. i + n \<le> length s \<and> email_shape (take n (drop i s))
                 \<and> (\<forall>j m. j < i \<and> j + m \<le> length s \<longrightarrow> \<not> email_shape (take m (drop j s)))
                 \<and> (i = 0 \<or> isspace (s ! (i - 1)))
                 \<and> (i + n = length s \<or> isspace (s ! (i + n)))
                 \<and> extract_email soup = strip_chars '','' (take n (drop i s))"
    by blast
qed

theorem extract_email_leftmost_witness:
  "email_shape ''jdoe@example.edu,''
   \<and> (\<exists>i n. i + n \<le> length ''jdoe@example.edu,''
        \<and> email_shape (take n (drop i ''jdoe@example.edu,''))
        \<and> extract_email [Tag ''p'' [] [Text ''jdoe@example.edu,'']]
            = strip_chars '','' (take n (drop i ''jdoe@example.edu,'')))
   \<and> extract_email [Tag ''p'' [] [Text ''jdoe@example.edu,'']] = ''jdoe@example.edu''
   \<and> extract_email [Tag ''p'' [] [Text ''no address'']] = []"
proof -
  let ?s = "''jdoe@example.edu,''"
  let ?soup = "[Tag ''p'' [] [Text ?s]]"
  have "matches_at email_pattern ?s 0 17" by code_simp
  then have m: "0 + 17 \<le> length ?s \<and> email_shape (take 17 (drop 0 ?s))"
    unfolding matches_email .
  then have sh: "email_shape ?s" by simp
  have e: "elements_list ?soup = [Tag ''p'' [] [Text ?s]] @ Text ?s # []" by simp
  have p: "\<forall>t i n. Text t \<in> set [Tag ''p'' [] [Text ?s]] \<and> i + n \<le> length t
             \<longrightarrow> \<not> email_shape (take n (drop i t))"
    by simp
  have 1: "\<exists>i n. i + n \<le> length ?s \<and> email_shape (take n (drop i ?s))
        \<and> extract_email ?soup = strip_chars '','' (take n (drop i ?s))"
    using extract_email_leftmost [of ?soup "[Tag ''p'' [] [Text ?s]]" ?s "[]" 0 17] e p m
    by blast
  have 2: "extract_email ?soup = ''jdoe@example.edu''" by code_simp
  have n: "re_search email_pattern ''no address'' = None" by code_simp
  have "\<forall>i n. \<not> (i + n \<le> length ''no address'' \<and> email_shape (take n (drop i ''no address'')))"
    using re_search_None [OF n] unfolding matches_email by blast
  then have "\<forall>s i n. Text s \<in> set (elements_list [Tag ''p'' [] [Text ''no address'']])
          \<and> i + n \<le> length s \<longrightarrow> \<not> email_shape (take n (drop i s))"
    by simp
  with extract_email_leftmost [of "[Tag ''p'' [] [Text ''no address'']]" "[]" "[]" "[]" 0 0]
  have 3: "extract_email [Tag ''p'' [] [Text ''no address'']] = []" by blast
  from sh 1 2 3 show ?thesis by blast
qed

text \<open>
  C6 as stated fails: a comma at the start of the matching substring is stripped too, so
  the result is not the matching substring with its trailing comma stripped.
\<close>

theorem extract_email_leading_comma:
  "re_group email_pattern ''Email ,jdoe@example.edu'' = Some '',jdoe@example.edu''
   \<and> extract_email [Tag ''p'' [] [Text ''Email ,jdoe@example.edu'']] = ''jdoe@example.edu''"
  by code_simp

text \<open>The example of the specification.\<close>

lemma spec_example_email:
  "extract_email [Tag ''p'' [] [Text ''Contact: jdoe@example.edu, office hours...'']] = ''jdoe@example.edu''"
  by code_simp

section \<open>The phone extractor: claims\<close>












text \<open>The example of the specification, the number standing in the next tag.\<close>

lemma spec_example_phone:
  "extract_phone [Tag ''td'' [] [Text ''Phone''], Tag ''td'' [] [Text ''(408) 924-1000'']]
     = Inr ''(408) 924-1000''"
  by code_simp

section \<open>The education extractor: claims\<close>











text \<open>The no-break space is whitespace for the extractors: it separates the tokens of a
  name, is trimmed from a name and from an education blurb, and ends an email address.\<close>

lemma nbsp_is_whitespace:
  "extract_name [Tag ''h1'' [] [Text (''Jane'' @ [CHR 0xA0] @ ''Smith'')]]
     = Inr (NamePair ''Smith'' ''Jane'')
   \<and> extract_name [Tag ''h1'' [] [Text (''Jane'' @ [CHR 0xA0] @ ''M Smith'')]]
     = Inr (NamePair ''Smith'' ''Jane'')
   \<and> extract_name [Tag ''h1'' [] [Text (''Smith, Jane'' @ [CHR 0xA0])]]
     = Inr (NamePair ''Smith'' '' Jane'')
   \<and> extract_email [Tag ''p'' [] [Text (''a@b.c'' @ [CHR 0xA0] @ ''next'')]] = ''a@b.c''
   \<and> extract_education [Tag ''h2'' [] [Text ''Education''],
                         Tag ''p'' [] [Text (''PhD'' @ [CHR 0xA0])]] = Inr ''PhD''"
  by code_simp

section \<open>The command line: claims\<close>

text \<open>
  C9. When the argument count is not one, or the extension of the output path is not
  \<^verbatim>\<open>.csv\<close>, the program prints its usage error and returns: every effect of the run is
  a line printed, so no file is opened and no address is requested.
\<close>

theorem main_usage_error:
  "(length argv \<noteq> 2 \<longrightarrow>
      main e argv = ([Print ''Error: invalid number of arguments'',
                      Print ''Usage: scrape.py filename''], Inr ()))
   \<and> (length argv = 2 \<and> snd (splitext (argv ! 1)) \<noteq> ''.csv'' \<longrightarrow>
      main e argv = ([Print ''Please specify a csv filename''], Inr ()))
   \<and> (length argv \<noteq> 2 \<or> snd (splitext (argv ! 1)) \<noteq> ''.csv'' \<longrightarrow>
      fst (main e argv) \<noteq> [] \<and> list_all is_print (fst (main e argv)) \<and> snd (main e argv) = Inr ())"
  by (auto simp: main_def)

theorem main_usage_error_witness:
  "main \<lparr>web = (\<lambda>u. Page []), robots = (\<lambda>u. Policy (\<lambda>u. True)),
          urljoin = (\<lambda>b r. b @ r), urlparse = (\<lambda>u. (''https'', ''sjsu.edu''))\<rparr>
     [''scrape.py'']
     = ([Print ''Error: invalid number of arguments'', Print ''Usage: scrape.py filename''], Inr ())
   \<and> main \<lparr>web = (\<lambda>u. Page []), robots = (\<lambda>u. Policy (\<lambda>u. True)),
          urljoin = (\<lambda>b r. b @ r), urlparse = (\<lambda>u. (''https'', ''sjsu.edu''))\<rparr>
     [''scrape.py'', ''out.txt'']
     = ([Print ''Please specify a csv filename''], Inr ())
   \<and> main \<lparr>web = (\<lambda>u. Page []), robots = (\<lambda>u. Policy (\<lambda>u. True)),
          urljoin = (\<lambda>b r. b @ r), urlparse = (\<lambda>u. (''https'', ''sjsu.edu''))\<rparr>
     [''scrape.py'', ''out.CSV'']
     = ([Print ''Please specify a csv filename''], Inr ())
   \<and> list_all is_print
        (fst (main \<lparr>web = (\<lambda>u. Page []), robots = (\<lambda>u. Policy (\<lambda>u. True)),
          urljoin = (\<lambda>b r. b @ r), urlparse = (\<lambda>u. (''https'', ''sjsu.edu''))\<rparr>
          [''scrape.py'', ''a'', ''b.csv'']))"
proof -
  let ?e = "\<lparr>web = (\<lambda>u. Page []), robots = (\<lambda>u. Policy (\<lambda>u. True)),
          urljoin = (\<lambda>b r. b @ r), urlparse = (\<lambda>u. (''https'', ''sjsu.edu''))\<rparr>"
  have s1: "snd (splitext ([''scrape.py'', ''out.txt''] ! 1)) \<noteq> ''.csv''" by code_simp
  have s2: "snd (splitext ([''scrape.py'', ''out.CSV''] ! 1)) \<noteq> ''.csv''" by code_simp
  have 1: "main ?e [''scrape.py''] = ([Print ''Error: invalid number of arguments'',
                      Print ''Usage: scrape.py filename''], Inr ())"
    using main_usage_error [of "[''scrape.py'']" ?e] by simp
  have 2: "main ?e [''scrape.py'', ''out.txt''] = ([Print ''Please specify a csv filename''], Inr ())"
    using main_usage_error [of "[''scrape.py'', ''out.txt'']" ?e] s1 by simp
  have 3: "main ?e [''scrape.py'', ''out.CSV''] = ([Print ''Please specify a csv filename''], Inr ())"
    using main_usage_error [of "[''scrape.py'', ''out.CSV'']" ?e] s2 by simp
  have 4: "list_all is_print (fst (main ?e [''scrape.py'', ''a'', ''b.csv'']))"
    using main_usage_error [of "[''scrape.py'', ''a'', ''b.csv'']" ?e] by simp
  from 1 2 3 4 show ?thesis by blast
qed

text \<open>With a csv file name the run does reach the network and the file.\<close>

lemma main_crawls:
  "main \<lparr>web = (\<lambda>u. Page []), robots = (\<lambda>u. Policy (\<lambda>u. True)),
         urljoin = (\<lambda>b r. b @ r), urlparse = (\<lambda>u. (''https'', ''sjsu.edu''))\<rparr>
     [''scrape.py'', ''out.csv'']
   = ([Fetch ''https://sjsu.edu/robots.txt'', Fetch ''https://sjsu.edu/people/'',
       OpenFile ''out.csv'', WriteFile header], Inr ())"
  by code_simp

section \<open>The harvester\<close>

lemma extract_name_returns: "\<exists>r. extract_name soup = Inr r"
proof (cases "find_all (named ''h1'') soup")
  case Nil
  then show ?thesis by (simp add: extract_name_def)
next
  case (Cons h hs)
  define name where "name = strip (get_text h)"
  show ?thesis
  proof (cases "CHR '','' \<in> set name")
    case True
    then show ?thesis
      using Cons unfolding name_def
      by (simp add: extract_name_def Let_def split_on_first split_on_second)
  next
    case False
    show ?thesis
    proof (cases "1 < length (split_ws name)")
      case t: True
      then have ne: "split_ws name \<noteq> []" by auto
      from Cons False t show ?thesis
        unfolding name_def
        using item_at_last [OF ne] item_at_first [OF ne]
        by (simp add: extract_name_def Let_def name_def)
    next
      case f: False
      with Cons False show ?thesis
        unfolding name_def by (simp add: extract_name_def Let_def)
    qed
  qed
qed

lemma read_url_no_write: "read_url e url = (ev, r) \<Longrightarrow> filter is_write ev = []"
  by (auto simp: read_url_def split: fetch_result.splits)

lemma get_info_no_write: "get_info e url = (ev, r) \<Longrightarrow> filter is_write ev = []"
  by (auto simp: get_info_def split: prod.splits option.splits dest: read_url_no_write)

text \<open>The loop writes at most one row for each index it visits, whether it ends or is
  cut short by an exception.\<close>

lemma harvest_rows_count:
  "length (filter is_write (fst (harvest_rows e links is))) \<le> length is"
proof (induction "is")
  case Nil
  show ?case by simp
next
  case (Cons i "is")
  show ?case
  proof (cases "item_at links (int i)")
    case (Inl err)
    then show ?thesis by simp
  next
    case (Inr link)
    obtain ev r where g: "get_info e link = (ev, r)" by (cases "get_info e link")
    then have nw: "filter is_write ev = []" by (rule get_info_no_write)
    obtain ev' r' where h: "harvest_rows e links is = (ev', r')" by (cases "harvest_rows e links is")
    with Cons.IH have le: "length (filter is_write ev') \<le> length is" by simp
    show ?thesis
    proof (cases r)
      case (Inl err)
      with Inr g nw show ?thesis by simp
    next
      case r: (Inr info)
      with Inr g nw h le show ?thesis by (cases info) simp_all
    qed
  qed
qed

text \<open>A run that has a list of \<open>N\<close> links writes the header and at most \<open>N - 1\<close> rows.\<close>

lemma harvest_count:
  assumes "get_people_links e url = (ev, Some links)"
  shows "length (filter is_write (fst (harvest e url filename))) \<le> 1 + (length links - 1)"
proof -
  obtain ev' r where h: "harvest_rows e links [1 ..< length links] = (ev', r)"
    by (cases "harvest_rows e links [1 ..< length links]")
  have "length (filter is_write ev') \<le> length [1 ..< length links]"
    using harvest_rows_count [of e links "[1 ..< length links]"] h by simp
  moreover have "filter is_write ev = []"
    using assms by (auto simp: get_people_links_def split: prod.splits option.splits
        dest: read_url_no_write)
  ultimately show ?thesis using assms h by (simp add: harvest_def)
qed

text \<open>When no extractor raises, a page gives a row exactly when it was fetched and the
  name extractor returned a pair.\<close>

lemma get_info_row:
  assumes "web e url = Page soup" "extract_phone soup = Inr ph" "extract_education soup = Inr ed"
  shows "(\<exists>row. get_info e url = ([Fetch url], Inr (Some row))) =
         (\<exists>l f. extract_name soup = Inr (NamePair l f))"
proof (cases "extract_name soup")
  case (Inl err)
  with assms show ?thesis by (simp add: get_info_def read_url_def bind_def)
next
  case (Inr name)
  with assms show ?thesis
    by (cases name) (simp_all add: get_info_def read_url_def bind_def)
qed

text \<open>A run in which every fetch and every extractor succeeds or fails softly.\<close>

lemma harvest_good_run:
  "harvest
     \<lparr>web = (\<lambda>u. if u = ''https://sjsu.edu/people/'' then
                    Page [Tag ''a'' [(''href'', ''/people/index'')] [Text ''People''],
                          Tag ''a'' [(''href'', ''/People/ann.lee'')] [Text ''Ann''],
                          Tag ''a'' [(''href'', ''/about'')] [Text ''About''],
                          Tag ''a'' [(''href'', ''/people/gone'')] [Text ''Gone'']]
                  else if u = ''https://sjsu.edu/People/ann.lee'' then
                    Page [Tag ''h1'' [] [Text ''Lee, Ann''],
                          Tag ''p'' [] [Text ''Email: ann.lee@sjsu.edu,''],
                          Tag ''b'' [] [Text ''Phone''], Tag ''span'' [] [Text ''(408) 924-1000''],
                          Tag ''h2'' [] [Text ''Education''],
                          Tag ''p'' [] [Text ''Ph.D., Stanford, 2005'']]
                  else URLError ''HTTP Error 404''),
       robots = (\<lambda>u. Policy (\<lambda>u. True)),
       urljoin = (\<lambda>b r. ''https://sjsu.edu'' @ r),
       urlparse = (\<lambda>u. (''https'', ''sjsu.edu''))\<rparr>
     ''https://sjsu.edu/people/'' ''out.csv''
   = ([Fetch ''https://sjsu.edu/people/'', OpenFile ''out.csv'', WriteFile header,
       Fetch ''https://sjsu.edu/People/ann.lee'',
       WriteFile (''Lee,Ann,ann.lee@sjsu.edu,(408) 924-1000,Ph.D.- Stanford- 2005'' @ [CHR 0x0A]),
       Fetch ''https://sjsu.edu/people/gone'',
       Print (''Error opening url: https://sjsu.edu/people/gone'' @ [CHR 0x0A] @ ''HTTP Error 404'')],
      Inr ())"
  by code_simp

section \<open>The harvester: claims\<close>



text \<open>
  C1 fails on the code. The second link of the index leads to a page that was fetched
  and on which the name extractor found a name, but whose Education heading is the last
  tag of the document: \<^verbatim>\<open>find_next()\<close> is \<^verbatim>\<open>None\<close>, the education extractor raises
  AttributeError, no row is written for the page, and the run ends before the third
  link, whose page also has a name, is fetched.
\<close>

theorem harvest_aborts_on_heading_without_next_tag:
  "harvest
     \<lparr>web = (\<lambda>u. if u = ''https://sjsu.edu/people/'' then
                    Page [Tag ''a'' [(''href'', ''/people/index'')] [Text ''People''],
                          Tag ''a'' [(''href'', ''/people/jane.smith'')] [Text ''Jane''],
                          Tag ''a'' [(''href'', ''/people/ann.lee'')] [Text ''Ann'']]
                  else if u = ''https://sjsu.edu/people/jane.smith'' then
                    Page [Tag ''h1'' [] [Text ''Jane Smith''], Tag ''h2'' [] [Text ''Education'']]
                  else Page [Tag ''h1'' [] [Text ''Ann Lee'']]),
       robots = (\<lambda>u. Policy (\<lambda>u. True)),
       urljoin = (\<lambda>b r. ''https://sjsu.edu'' @ r),
       urlparse = (\<lambda>u. (''https'', ''sjsu.edu''))\<rparr>
     ''https://sjsu.edu/people/'' ''out.csv''
   = ([Fetch ''https://sjsu.edu/people/'', OpenFile ''out.csv'', WriteFile header,
       Fetch ''https://sjsu.edu/people/jane.smith''], Inl AttributeError)
   \<and> extract_name [Tag ''h1'' [] [Text ''Jane Smith''], Tag ''h2'' [] [Text ''Education'']]
       = Inr (NamePair ''Smith'' ''Jane'')
   \<and> extract_name [Tag ''h1'' [] [Text ''Ann Lee'']] = Inr (NamePair ''Lee'' ''Ann'')"
  by code_simp

text \<open>
  C2 fails on the code. When the fetch of the index page fails, the error is printed and
  \<^verbatim>\<open>get_people_links\<close> returns \<^verbatim>\<open>None\<close>; the harvester opens the file, writes the header
  and raises TypeError at \<^verbatim>\<open>len(people_links)\<close>.
\<close>

theorem harvest_raises_when_index_fails:
  "harvest
     \<lparr>web = (\<lambda>u. URLError ''timed out''),
       robots = (\<lambda>u. Policy (\<lambda>u. True)),
       urljoin = (\<lambda>b r. ''https://sjsu.edu'' @ r),
       urlparse = (\<lambda>u. (''https'', ''sjsu.edu''))\<rparr>
     ''https://sjsu.edu/people/'' ''out.csv''
   = ([Fetch ''https://sjsu.edu/people/'',
       Print (''Error opening url: https://sjsu.edu/people/'' @ [CHR 0x0A] @ ''timed out''),
       OpenFile ''out.csv'', WriteFile header], Inl TypeError)"
  by code_simp

end
